theory Spec2Isabelle
  imports Main "HOL-Library.AList" "HOL-Library.Extended_Nat"
begin

section \<open>The CSP solver of Assignment 5 (CSP-backtracking.py)\<close>

text \<open>
  The Python class \<^verbatim>\<open>CSP\<close> keeps three containers and two counters. Python dictionaries
  iterate in insertion order and the solver depends on that order (the arc queue, the
  tie-break of \<^verbatim>\<open>min\<close>), so every dictionary is an association list that is only
  changed through \<open>AList.update\<close>: an existing key keeps its position, a new key goes
  to the end.

  Values of a domain are Python objects; the two kinds the program is used with are
  modelled: strings (the Sudoku digits) and integers. A domain stored in an assignment
  is either a Python list (\<open>DList\<close>) or, after line 137 of the source, the bare value
  itself (\<open>DBare\<close>).
\<close>

subsection \<open>Data\<close>

datatype pyval = PStr string | PInt int

datatype dom = DList "pyval list" | DBare pyval

datatype error = KeyError | TypeError | AttributeError | ValueError | RecursionError

type_synonym arc = "string \<times> string"

type_synonym assignment = "(string \<times> dom) list"

record csp =
  variables :: "string list"
  domains :: "(string \<times> pyval list) list"
  constraints :: "(string \<times> (string \<times> (pyval \<times> pyval) list) list) list"
  backtracking_number :: nat
  failed_backtracking_number :: nat

text \<open>\<^verbatim>\<open>CSP.__init__\<close>\<close>

definition CSP_init :: csp where
  "CSP_init = \<lparr>variables = [], domains = [], constraints = [],
     backtracking_number = 0, failed_backtracking_number = 0\<rparr>"

subsection \<open>What Python does with a domain object\<close>

text \<open>\<^verbatim>\<open>for x in d\<close>: a list yields its elements, a string its one-character strings,
  an integer raises TypeError.\<close>

fun iter_dom :: "dom \<Rightarrow> error + pyval list" where
  "iter_dom (DList xs) = Inr xs"
| "iter_dom (DBare (PStr s)) = Inr (map (\<lambda>ch. PStr [ch]) s)"
| "iter_dom (DBare (PInt n)) = Inl TypeError"

text \<open>\<^verbatim>\<open>len(d)\<close>\<close>

fun len_dom :: "dom \<Rightarrow> error + nat" where
  "len_dom (DList xs) = Inr (length xs)"
| "len_dom (DBare (PStr s)) = Inr (length s)"
| "len_dom (DBare (PInt n)) = Inl TypeError"

text \<open>Truth value of \<^verbatim>\<open>d\<close> (as in \<^verbatim>\<open>not assignment[xi]\<close>).\<close>

fun truthy_dom :: "dom \<Rightarrow> bool" where
  "truthy_dom (DList xs) = (xs \<noteq> [])"
| "truthy_dom (DBare (PStr s)) = (s \<noteq> [])"
| "truthy_dom (DBare (PInt n)) = (n \<noteq> 0)"

text \<open>\<^verbatim>\<open>t in s\<close> on strings is the substring test.\<close>

definition str_contains :: "string \<Rightarrow> string \<Rightarrow> bool" where
  "str_contains s t = list_ex (\<lambda>i. take (length t) (drop i s) = t) [0..<Suc (length s)]"

text \<open>\<^verbatim>\<open>x in d\<close>\<close>

fun contains_dom :: "dom \<Rightarrow> pyval \<Rightarrow> error + bool" where
  "contains_dom (DList xs) x = Inr (x \<in> set xs)"
| "contains_dom (DBare (PStr s)) (PStr t) = Inr (str_contains s t)"
| "contains_dom (DBare (PStr s)) (PInt n) = Inl TypeError"
| "contains_dom (DBare (PInt n)) x = Inl TypeError"

text \<open>\<^verbatim>\<open>d.remove(x)\<close>: only a list has the method; it deletes the first occurrence and
  raises ValueError when there is none.\<close>

fun remove_dom :: "dom \<Rightarrow> pyval \<Rightarrow> error + dom" where
  "remove_dom (DList xs) x = (if x \<in> set xs then Inr (DList (remove1 x xs)) else Inl ValueError)"
| "remove_dom (DBare v) x = Inl AttributeError"

subsection \<open>Building the constraint graph\<close>

text \<open>\<^verbatim>\<open>add_variable\<close> (lines 30-37): no check of any kind.\<close>

definition add_variable :: "csp \<Rightarrow> string \<Rightarrow> pyval list \<Rightarrow> csp" where
  "add_variable c name domain =
     c\<lparr>variables := variables c @ [name],
       domains := AList.update name domain (domains c),
       constraints := AList.update name [] (constraints c)\<rparr>"

text \<open>\<^verbatim>\<open>get_all_possible_pairs\<close> is \<^verbatim>\<open>itertools.product(a, b)\<close>.\<close>

definition get_all_possible_pairs :: "'a list \<Rightarrow> 'b list \<Rightarrow> ('a \<times> 'b) list" where
  "get_all_possible_pairs a b = List.product a b"

definition get_all_arcs :: "csp \<Rightarrow> arc list" where
  "get_all_arcs c = concat (map (\<lambda>(i, m). map (\<lambda>(j, ps). (i, j)) m) (constraints c))"

definition get_all_neighboring_arcs :: "csp \<Rightarrow> string \<Rightarrow> error + arc list" where
  "get_all_neighboring_arcs c var =
     (case map_of (constraints c) var of
        None \<Rightarrow> Inl KeyError
      | Some m \<Rightarrow> Inr (map (\<lambda>(i, ps). (i, var)) m))"

text \<open>\<^verbatim>\<open>add_constraint_one_way\<close> (lines 62-78). The filter function is a total predicate
  on pairs of values.\<close>

definition add_constraint_one_way ::
  "csp \<Rightarrow> string \<Rightarrow> string \<Rightarrow> (pyval \<Rightarrow> pyval \<Rightarrow> bool) \<Rightarrow> error + csp" where
  "add_constraint_one_way c i j filter_function =
     (case map_of (constraints c) i of
        None \<Rightarrow> Inl KeyError
      | Some ci \<Rightarrow>
          (case (case map_of ci j of
                   Some ps \<Rightarrow> Inr ps
                 | None \<Rightarrow>
                     (case map_of (domains c) i of
                        None \<Rightarrow> Inl KeyError
                      | Some di \<Rightarrow>
                          (case map_of (domains c) j of
                             None \<Rightarrow> Inl KeyError
                           | Some dj \<Rightarrow> Inr (get_all_possible_pairs di dj)))) of
             Inl e \<Rightarrow> Inl e
           | Inr ps \<Rightarrow>
               Inr (c\<lparr>constraints :=
                      AList.update i
                        (AList.update j (filter (\<lambda>(x, y). filter_function x y) ps) ci)
                        (constraints c)\<rparr>)))"

text \<open>\<^verbatim>\<open>add_all_different_constraint\<close> (lines 80-87): the loop over all pairs.\<close>

fun add_all_different_loop :: "csp \<Rightarrow> (string \<times> string) list \<Rightarrow> error + csp" where
  "add_all_different_loop c [] = Inr c"
| "add_all_different_loop c ((i, j) # rest) =
     (if i \<noteq> j then
        (case add_constraint_one_way c i j (\<lambda>x y. x \<noteq> y) of
           Inl e \<Rightarrow> Inl e
         | Inr c' \<Rightarrow> add_all_different_loop c' rest)
      else add_all_different_loop c rest)"

definition add_all_different_constraint :: "csp \<Rightarrow> string list \<Rightarrow> error + csp" where
  "add_all_different_constraint c vars =
     add_all_different_loop c (get_all_possible_pairs vars vars)"

subsection \<open>Revise (lines 177-195)\<close>

text \<open>
  The test of line 191 for one value \<open>x\<close> of \<open>xi\<close>: the pairs of \<open>x\<close> with the current
  values of \<open>xj\<close> are built first; the constraint list is looked up once per pair, so
  not at all when there is no pair. The result is the truth value of the sum.
\<close>

definition has_support :: "csp \<Rightarrow> assignment \<Rightarrow> string \<Rightarrow> string \<Rightarrow> pyval \<Rightarrow> error + bool" where
  "has_support c a xi xj x =
     (case map_of a xj of
        None \<Rightarrow> Inl KeyError
      | Some dj \<Rightarrow>
          (case iter_dom dj of
             Inl e \<Rightarrow> Inl e
           | Inr ys \<Rightarrow>
               (let arcs = get_all_possible_pairs [x] ys in
                if arcs = [] then Inr False
                else
                  (case map_of (constraints c) xi of
                     None \<Rightarrow> Inl KeyError
                   | Some ci \<Rightarrow>
                       (case map_of ci xj of
                          None \<Rightarrow> Inl KeyError
                        | Some ps \<Rightarrow>
                            Inr (sum_list (map (\<lambda>arc. if arc \<in> set ps then 1 else 0) arcs)
                                   \<noteq> (0::nat)))))))"

text \<open>
  The \<^verbatim>\<open>for\<close> loop of line 189. Python's iterator over a list (and over a string) is an
  index into the object: each step reads the element at the index, if there is one, and
  advances the index. The object \<^verbatim>\<open>assignment[xi]\<close> is mutated by line 193 while the loop
  runs, so the loop state is the assignment, the index and the flag.
\<close>

function revise_loop ::
  "csp \<Rightarrow> assignment \<Rightarrow> string \<Rightarrow> string \<Rightarrow> nat \<Rightarrow> bool \<Rightarrow> error + (bool \<times> assignment)" where
  "revise_loop c a xi xj idx revised =
     (case map_of a xi of
        None \<Rightarrow> Inl KeyError
      | Some d \<Rightarrow>
          (case iter_dom d of
             Inl e \<Rightarrow> Inl e
           | Inr xs \<Rightarrow>
               if idx < length xs then
                 (case has_support c a xi xj (xs ! idx) of
                    Inl e \<Rightarrow> Inl e
                  | Inr True \<Rightarrow> revise_loop c a xi xj (Suc idx) revised
                  | Inr False \<Rightarrow>
                      (case contains_dom d (xs ! idx) of
                         Inl e \<Rightarrow> Inl e
                       | Inr False \<Rightarrow> revise_loop c a xi xj (Suc idx) True
                       | Inr True \<Rightarrow>
                           (case remove_dom d (xs ! idx) of
                              Inl e \<Rightarrow> Inl e
                            | Inr d' \<Rightarrow>
                                revise_loop c (AList.update xi d' a) xi xj (Suc idx) True)))
               else Inr (revised, a)))"
  by pat_completeness auto

fun iter_len :: "dom option \<Rightarrow> nat" where
  "iter_len None = 0"
| "iter_len (Some (DList xs)) = length xs"
| "iter_len (Some (DBare (PStr s))) = length s"
| "iter_len (Some (DBare (PInt n))) = 0"

lemma iter_dom_len: "iter_dom d = Inr xs \<Longrightarrow> iter_len (Some d) = length xs"
  by (cases d rule: iter_dom.cases) auto

lemma remove_dom_len: "remove_dom d x = Inr d' \<Longrightarrow> iter_len (Some d') \<le> iter_len (Some d)"
  by (cases d) (auto split: if_splits simp: length_remove1)

termination revise_loop
proof (relation "measure (\<lambda>(c, a, xi, xj, idx, revised). iter_len (map_of a xi) - idx)")
  show "wf (measure (\<lambda>(c, a, xi, xj, idx, revised). iter_len (map_of a xi) - idx))"
    by simp
qed (auto simp: update_conv' dest!: iter_dom_len remove_dom_len)

declare revise_loop.simps [simp del]

subsection \<open>Revise only removes values\<close>

text \<open>
  A weighted total of the domain sizes of an assignment. With weight 1 for every variable
  it is the measure that makes the work-list loop of \<^verbatim>\<open>inference\<close> terminate; with the
  number of neighbours as weight it bounds the number of calls of \<^verbatim>\<open>revise\<close>.
\<close>

definition wsum :: "(string \<Rightarrow> nat) \<Rightarrow> assignment \<Rightarrow> nat" where
  "wsum w a = sum_list (map (\<lambda>(k, d). w k * iter_len (Some d)) a)"

lemma wsum_update:
  "map_of a k = Some d \<Longrightarrow>
   wsum w (AList.update k d' a) + w k * iter_len (Some d) = wsum w a + w k * iter_len (Some d')"
  by (induction a) (auto simp: wsum_def)

lemma str_contains_nth: "idx < length s \<Longrightarrow> str_contains s [s ! idx]"
proof -
  assume h: "idx < length s"
  then have "take (length [s ! idx]) (drop idx s) = [s ! idx]"
    by (simp add: take_Suc_conv_app_nth hd_drop_conv_nth take_Suc)
  moreover have "idx \<in> set [0..<Suc (length s)]" using h by simp
  ultimately show ?thesis unfolding str_contains_def list_ex_iff by blast
qed

lemma contains_dom_iter:
  "iter_dom d = Inr xs \<Longrightarrow> idx < length xs \<Longrightarrow> contains_dom d (xs ! idx) = Inr True"
  by (cases d rule: iter_dom.cases) (auto simp: str_contains_nth)

lemma remove_dom_shrinks:
  "remove_dom d x = Inr d' \<Longrightarrow> Suc (iter_len (Some d')) = iter_len (Some d)"
proof (cases d)
  case (DList xs)
  assume "remove_dom d x = Inr d'"
  with DList have x: "x \<in> set xs" and d': "d' = DList (remove1 x xs)"
    by (auto split: if_splits)
  from x have "0 < length xs" by (rule length_pos_if_in_set)
  with x d' DList show ?thesis by (simp add: length_remove1)
qed simp

lemma revise_loop_wsum:
  "revise_loop c a xi xj idx r = Inr (r', a') \<Longrightarrow>
     (r \<longrightarrow> r') \<and> (\<not> r' \<longrightarrow> a' = a) \<and> wsum w a' \<le> wsum w a \<and>
     (r' \<and> \<not> r \<longrightarrow> wsum w a' + w xi \<le> wsum w a)"
proof (induction c a xi xj idx r rule: revise_loop.induct)
  case (1 c a xi xj idx revised)
  from "1.prems" obtain d xs where d: "map_of a xi = Some d" and xs: "iter_dom d = Inr xs"
    by (subst (asm) revise_loop.simps) (auto split: option.splits sum.splits)
  show ?case
  proof (cases "idx < length xs")
    case False
    with "1.prems" d xs show ?thesis
      by (subst (asm) revise_loop.simps) simp
  next
    case True
    note inb = this
    have cont: "contains_dom d (xs ! idx) = Inr True"
      using xs inb by (rule contains_dom_iter)
    show ?thesis
    proof (cases "has_support c a xi xj (xs ! idx)")
      case (Inl e)
      with "1.prems" d xs inb show ?thesis
        by (subst (asm) revise_loop.simps) simp
    next
      case (Inr b)
      show ?thesis
      proof (cases b)
        case True
        with Inr "1.prems" d xs inb
        have "revise_loop c a xi xj (Suc idx) revised = Inr (r', a')"
          by (subst (asm) revise_loop.simps) simp
        with "1.IH"(1)[OF d xs inb] Inr True show ?thesis by simp
      next
        case False
        with Inr "1.prems" d xs inb cont obtain d' where
          rm: "remove_dom d (xs ! idx) = Inr d'" and
          rec: "revise_loop c (AList.update xi d' a) xi xj (Suc idx) True = Inr (r', a')"
          by (subst (asm) revise_loop.simps) (auto split: sum.splits)
        have hs: "has_support c a xi xj (xs ! idx) = Inr False"
          using Inr False by simp
        from "1.IH"(2)[OF d xs inb hs refl cont refl rm rec]
        have ih: "r'" "wsum w a' \<le> wsum w (AList.update xi d' a)"
          by simp_all
        have "wsum w (AList.update xi d' a) + w xi * Suc (iter_len (Some d')) =
              wsum w a + w xi * iter_len (Some d')"
          using wsum_update[OF d, of w d'] remove_dom_shrinks[OF rm] by simp
        then have "wsum w (AList.update xi d' a) + w xi = wsum w a"
          by simp
        with ih show ?thesis by simp
      qed
    qed
  qed
qed

definition revise :: "csp \<Rightarrow> assignment \<Rightarrow> string \<Rightarrow> string \<Rightarrow> error + (bool \<times> assignment)" where
  "revise c a xi xj = revise_loop c a xi xj 0 False"

lemma revise_unchanged: "revise c a xi xj = Inr (False, a') \<Longrightarrow> a' = a"
  unfolding revise_def by (drule revise_loop_wsum [where w = "\<lambda>k. 0"]) simp

lemma revise_decreases:
  "revise c a xi xj = Inr (True, a') \<Longrightarrow> wsum w a' + w xi \<le> wsum w a"
  unfolding revise_def by (drule revise_loop_wsum [where w = w]) simp

subsection \<open>Inference: AC-3 (lines 160-175)\<close>

text \<open>
  The queue is a Python list used first-in first-out: \<^verbatim>\<open>pop(0)\<close> takes the head,
  \<^verbatim>\<open>append\<close> adds at the end. The result carries the assignment as the loop left it,
  since the caller's object is pruned in place whatever the returned boolean is.
\<close>

function inference :: "csp \<Rightarrow> assignment \<Rightarrow> arc list \<Rightarrow> error + (bool \<times> assignment)" where
  "inference c a [] = Inr (True, a)"
| "inference c a ((xi, xj) # queue) =
     (case revise c a xi xj of
        Inl e \<Rightarrow> Inl e
      | Inr (revised, a') \<Rightarrow>
          if revised then
            (case map_of a' xi of
               None \<Rightarrow> Inl KeyError
             | Some d \<Rightarrow>
                 if \<not> truthy_dom d then Inr (False, a')
                 else
                   (case get_all_neighboring_arcs c xi of
                      Inl e \<Rightarrow> Inl e
                    | Inr ns \<Rightarrow>
                        inference c a'
                          (queue @ map (\<lambda>(xk, u). (xk, xi)) (filter (\<lambda>(xk, u). xk \<noteq> xj) ns))))
          else inference c a' queue)"
  by pat_completeness auto

termination inference
proof (relation "inv_image (less_than <*lex*> less_than)
                   (\<lambda>(c, a, queue). (wsum (\<lambda>k. 1) a, length queue))")
  show "wf (inv_image (less_than <*lex*> less_than)
              (\<lambda>(c, a, queue). (wsum (\<lambda>k. 1) a, length queue)))"
    by (intro wf_inv_image wf_lex_prod wf_less_than)
next
  fix c a xi xj queue x a' revised and ns :: "arc list"
  assume "revise c a xi xj = Inr x" "(revised, a') = x" "revised"
  then have "revise c a xi xj = Inr (True, a')" by auto
  from revise_decreases [OF this, of "\<lambda>k. 1"]
  show "((c, a', queue @ map (\<lambda>(xk, u). (xk, xi)) (filter (\<lambda>(xk, u). xk \<noteq> xj) ns)),
         (c, a, (xi, xj) # queue))
        \<in> inv_image (less_than <*lex*> less_than)
             (\<lambda>(c, a, queue). (wsum (\<lambda>k. 1) a, length queue))"
    by simp
next
  fix c a xi xj queue x a' revised
  assume "revise c a xi xj = Inr x" "(revised, a') = x" "\<not> revised"
  then have "revise c a xi xj = Inr (False, a')" by auto
  from revise_unchanged [OF this]
  show "((c, a', queue), (c, a, (xi, xj) # queue))
        \<in> inv_image (less_than <*lex*> less_than)
             (\<lambda>(c, a, queue). (wsum (\<lambda>k. 1) a, length queue))"
    by simp
qed

subsection \<open>Backtracking search (lines 89-158)\<close>

text \<open>The sum of line 131: \<^verbatim>\<open>len\<close> of every stored domain, in dictionary order.\<close>

fun sum_len :: "dom list \<Rightarrow> error + nat" where
  "sum_len [] = Inr 0"
| "sum_len (d # ds) =
     (case len_dom d of
        Inl e \<Rightarrow> Inl e
      | Inr n \<Rightarrow> (case sum_len ds of Inl e \<Rightarrow> Inl e | Inr m \<Rightarrow> Inr (n + m)))"

text \<open>
  \<^verbatim>\<open>select_unassigned_variable\<close> (line 158): \<^verbatim>\<open>min\<close> over the keys with the key function
  that maps a length below 2 to \<^verbatim>\<open>float("inf")\<close>. \<^verbatim>\<open>min\<close> keeps the first item and
  replaces it only by an item whose key is strictly smaller; on no item it raises
  ValueError.
\<close>

definition mrv_key :: "assignment \<Rightarrow> string \<Rightarrow> error + enat" where
  "mrv_key a var =
     (case map_of a var of
        None \<Rightarrow> Inl KeyError
      | Some d \<Rightarrow>
          (case len_dom d of
             Inl e \<Rightarrow> Inl e
           | Inr n \<Rightarrow> Inr (if n < 2 then \<infinity> else enat n)))"

fun min_loop :: "assignment \<Rightarrow> string \<Rightarrow> enat \<Rightarrow> string list \<Rightarrow> error + string" where
  "min_loop a best best_key [] = Inr best"
| "min_loop a best best_key (var # rest) =
     (case mrv_key a var of
        Inl e \<Rightarrow> Inl e
      | Inr k \<Rightarrow>
          if k < best_key then min_loop a var k rest else min_loop a best best_key rest)"

definition select_unassigned_variable :: "assignment \<Rightarrow> error + string" where
  "select_unassigned_variable a =
     (case map fst a of
        [] \<Rightarrow> Inl ValueError
      | var # rest \<Rightarrow>
          (case mrv_key a var of
             Inl e \<Rightarrow> Inl e
           | Inr k \<Rightarrow> min_loop a var k rest))"

text \<open>Lines 136-137: the deep copy with the chosen variable rebound to the value.
  Assignments are values here, so the copy is the assignment itself and the caller's
  assignment cannot change.\<close>

definition assign_value :: "assignment \<Rightarrow> string \<Rightarrow> pyval \<Rightarrow> assignment" where
  "assign_value a var v = AList.update var (DBare v) a"

text \<open>
  \<^verbatim>\<open>backtrack\<close> (lines 111-147) with the loop over the candidate values as
  \<open>try_values\<close>. The recursion need not end (a variable declared with an empty domain
  and no constraint is never decided), and Python then raises RecursionError when the
  interpreter's recursion limit is reached: the first argument is that budget. The
  counters are fields of the object, so the record is threaded through the calls.
\<close>

function backtrack :: "nat \<Rightarrow> csp \<Rightarrow> assignment \<Rightarrow> error + (assignment option \<times> csp)"
  and try_values ::
    "nat \<Rightarrow> csp \<Rightarrow> assignment \<Rightarrow> string \<Rightarrow> pyval list \<Rightarrow> error + (assignment option \<times> csp)"
where
  "backtrack 0 c a = Inl RecursionError"
| "backtrack (Suc fuel) c a =
     (case sum_len (map snd a) of
        Inl e \<Rightarrow> Inl e
      | Inr lens \<Rightarrow>
          if lens = length a then Inr (Some a, c)
          else
            (case select_unassigned_variable a of
               Inl e \<Rightarrow> Inl e
             | Inr var \<Rightarrow>
                 (case map_of a var of
                    None \<Rightarrow> Inl KeyError
                  | Some d \<Rightarrow>
                      (case iter_dom d of
                         Inl e \<Rightarrow> Inl e
                       | Inr vals \<Rightarrow> try_values fuel c a var vals))))"
| "try_values fuel c a var [] =
     Inr (None, c\<lparr>failed_backtracking_number := failed_backtracking_number c + 1\<rparr>)"
| "try_values fuel c a var (v # rest) =
     (case inference c (assign_value a var v) (get_all_arcs c) of
        Inl e \<Rightarrow> Inl e
      | Inr (ok, assignment_cp) \<Rightarrow>
          if ok then
            (case backtrack fuel (c\<lparr>backtracking_number := backtracking_number c + 1\<rparr>)
                    assignment_cp of
               Inl e \<Rightarrow> Inl e
             | Inr (result, c') \<Rightarrow>
                 (case result of
                    Some r \<Rightarrow> if r \<noteq> [] then Inr (Some r, c') else try_values fuel c' a var rest
                  | None \<Rightarrow> try_values fuel c' a var rest))
          else try_values fuel c a var rest)"
  by pat_completeness auto
termination
  by (relation "inv_image (less_than <*lex*> less_than <*lex*> less_than)
        (\<lambda>x. case x of Inl (fuel, c, a) \<Rightarrow> (fuel, 0::nat, 0::nat)
                      | Inr (fuel, c, a, var, vals) \<Rightarrow> (fuel, 1, length vals))")
     auto

text \<open>\<^verbatim>\<open>backtracking_search\<close> (lines 89-109). The value returned by the first
  \<^verbatim>\<open>inference\<close> call is dropped by line 102; only its pruning is kept.\<close>

definition initial_assignment :: "csp \<Rightarrow> assignment" where
  "initial_assignment c = map (\<lambda>(name, xs). (name, DList xs)) (domains c)"

definition backtracking_search :: "nat \<Rightarrow> csp \<Rightarrow> error + (assignment option \<times> csp)" where
  "backtracking_search fuel c =
     (let assignment = initial_assignment c in
      case inference c assignment (get_all_arcs c) of
        Inl e \<Rightarrow> Inl e
      | Inr (ok, store) \<Rightarrow>
          backtrack fuel (c\<lparr>backtracking_number := 1, failed_backtracking_number := 0\<rparr>) store)"

section \<open>Notions used to state the properties\<close>

text \<open>\<^verbatim>\<open>len(assignment[k])\<close> where it is defined.\<close>

definition dom_len :: "assignment \<Rightarrow> string \<Rightarrow> nat option" where
  "dom_len a k =
     (case map_of a k of
        None \<Rightarrow> None
      | Some d \<Rightarrow> (case len_dom d of Inl e \<Rightarrow> None | Inr n \<Rightarrow> Some n))"

text \<open>The key that line 158 gives to a variable.\<close>

definition key_of :: "assignment \<Rightarrow> string \<Rightarrow> enat" where
  "key_of a k = (case dom_len a k of None \<Rightarrow> \<infinity> | Some n \<Rightarrow> if n < 2 then \<infinity> else enat n)"

text \<open>The values that iterating over a stored domain yields (none for a missing key or
  an object that cannot be iterated).\<close>

fun values_of :: "dom option \<Rightarrow> pyval list" where
  "values_of None = []"
| "values_of (Some d) = (case iter_dom d of Inl e \<Rightarrow> [] | Inr xs \<Rightarrow> xs)"

text \<open>\<open>pruned a' a\<close>: \<open>a'\<close> has the keys of \<open>a\<close> in the same order, and under every key
  \<open>a'\<close> holds no value that \<open>a\<close> does not hold, and not more of them.\<close>

definition pruned :: "assignment \<Rightarrow> assignment \<Rightarrow> bool" where
  "pruned a' a =
     (map fst a' = map fst a \<and>
      (\<forall>k. set (values_of (map_of a' k)) \<subseteq> set (values_of (map_of a k)) \<and>
          length (values_of (map_of a' k)) \<le> length (values_of (map_of a k))))"

text \<open>The number of neighbours of a variable: the size of its constraint dictionary.\<close>

definition degree :: "csp \<Rightarrow> string \<Rightarrow> nat" where
  "degree c k = (case map_of (constraints c) k of None \<Rightarrow> 0 | Some m \<Rightarrow> length m)"

text \<open>
  The loop of \<^verbatim>\<open>inference\<close> once more, with a counter of the calls of \<^verbatim>\<open>revise\<close> beside
  its result. \<open>inference_counted_result\<close> below shows that the result is that of
  \<open>inference\<close>.
\<close>

definition tick :: "nat \<times> 'a \<Rightarrow> nat \<times> 'a" where
  "tick p = (Suc (fst p), snd p)"

function inference_counted ::
  "csp \<Rightarrow> assignment \<Rightarrow> arc list \<Rightarrow> nat \<times> (error + (bool \<times> assignment))" where
  "inference_counted c a [] = (0, Inr (True, a))"
| "inference_counted c a ((xi, xj) # queue) =
     (case revise c a xi xj of
        Inl e \<Rightarrow> (1, Inl e)
      | Inr (revised, a') \<Rightarrow>
          if revised then
            (case map_of a' xi of
               None \<Rightarrow> (1, Inl KeyError)
             | Some d \<Rightarrow>
                 if \<not> truthy_dom d then (1, Inr (False, a'))
                 else
                   (case get_all_neighboring_arcs c xi of
                      Inl e \<Rightarrow> (1, Inl e)
                    | Inr ns \<Rightarrow>
                        tick (inference_counted c a'
                                (queue @ map (\<lambda>(xk, u). (xk, xi))
                                           (filter (\<lambda>(xk, u). xk \<noteq> xj) ns)))))
          else tick (inference_counted c a' queue))"
  by pat_completeness auto

termination inference_counted
proof (relation "inv_image (less_than <*lex*> less_than)
                   (\<lambda>(c, a, queue). (wsum (\<lambda>k. 1) a, length queue))")
  show "wf (inv_image (less_than <*lex*> less_than)
              (\<lambda>(c, a, queue). (wsum (\<lambda>k. 1) a, length queue)))"
    by (intro wf_inv_image wf_lex_prod wf_less_than)
next
  fix c a xi xj queue x a' revised and ns :: "arc list"
  assume "revise c a xi xj = Inr x" "(revised, a') = x" "revised"
  then have "revise c a xi xj = Inr (True, a')" by auto
  from revise_decreases [OF this, of "\<lambda>k. 1"]
  show "((c, a', queue @ map (\<lambda>(xk, u). (xk, xi)) (filter (\<lambda>(xk, u). xk \<noteq> xj) ns)),
         (c, a, (xi, xj) # queue))
        \<in> inv_image (less_than <*lex*> less_than)
             (\<lambda>(c, a, queue). (wsum (\<lambda>k. 1) a, length queue))"
    by simp
next
  fix c a xi xj queue x a' revised
  assume "revise c a xi xj = Inr x" "(revised, a') = x" "\<not> revised"
  then have "revise c a xi xj = Inr (False, a')" by auto
  from revise_unchanged [OF this]
  show "((c, a', queue), (c, a, (xi, xj) # queue))
        \<in> inv_image (less_than <*lex*> less_than)
             (\<lambda>(c, a, queue). (wsum (\<lambda>k. 1) a, length queue))"
    by simp
qed

text \<open>
  An arc is consistent in an assignment when both domains can be iterated, the
  constraint list of the arc exists, and every value of the first domain forms a listed
  pair with some value of the second.
\<close>

definition arc_ok :: "csp \<Rightarrow> assignment \<Rightarrow> arc \<Rightarrow> bool" where
  "arc_ok c a arc =
     (case arc of (xi, xj) \<Rightarrow>
        (case map_of a xi of None \<Rightarrow> False | Some di \<Rightarrow>
        (case iter_dom di of Inl e \<Rightarrow> False | Inr xs \<Rightarrow>
        (case map_of a xj of None \<Rightarrow> False | Some dj \<Rightarrow>
        (case iter_dom dj of Inl e \<Rightarrow> False | Inr ys \<Rightarrow>
        (case map_of (constraints c) xi of None \<Rightarrow> False | Some ci \<Rightarrow>
        (case map_of ci xj of None \<Rightarrow> False | Some ps \<Rightarrow>
           list_all (\<lambda>x. list_ex (\<lambda>y. (x, y) \<in> set ps) ys) xs)))))))"

definition arc_consistent :: "csp \<Rightarrow> assignment \<Rightarrow> bool" where
  "arc_consistent c a = list_all (arc_ok c a) (get_all_arcs c)"

text \<open>Every stored domain has exactly one value.\<close>

definition all_singleton :: "assignment \<Rightarrow> bool" where
  "all_singleton a = list_all (\<lambda>(k, d). len_dom d = Inr 1) a"

text \<open>A solution gives every declared variable one value of its declared domain such
  that every installed constraint list contains the pair of the values of its arc.\<close>

definition is_solution :: "csp \<Rightarrow> (string \<times> pyval) list \<Rightarrow> bool" where
  "is_solution c s =
     (list_all (\<lambda>(name, xs). case map_of s name of None \<Rightarrow> False | Some v \<Rightarrow> v \<in> set xs)
        (domains c) \<and>
      list_all (\<lambda>(i, m).
          list_all (\<lambda>(j, ps).
              case map_of s i of
                None \<Rightarrow> False
              | Some x \<Rightarrow> (case map_of s j of None \<Rightarrow> False | Some y \<Rightarrow> (x, y) \<in> set ps)) m)
        (constraints c))"

section \<open>Example graphs\<close>

text \<open>Three cells that must differ, two of them prefilled with the same digit.\<close>

definition ex_alldiff :: csp where
  "ex_alldiff =
     \<lparr>variables = [''A'', ''B'', ''C''],
      domains = [(''A'', [PStr ''1'']), (''B'', [PStr ''1'']), (''C'', [PStr ''1'', PStr ''2''])],
      constraints =
        [(''A'', [(''B'', []), (''C'', [(PStr ''1'', PStr ''2'')])]),
         (''B'', [(''A'', []), (''C'', [(PStr ''1'', PStr ''2'')])]),
         (''C'', [(''A'', [(PStr ''2'', PStr ''1'')]), (''B'', [(PStr ''2'', PStr ''1'')])])],
      backtracking_number = 0, failed_backtracking_number = 0\<rparr>"

definition st_alldiff :: assignment where
  "st_alldiff =
     [(''A'', DList []), (''B'', DList [PStr ''1'']), (''C'', DList [PStr ''1'', PStr ''2''])]"

text \<open>Two integer variables with the constraint \<open>A \<ge> B\<close>, installed in both directions.\<close>

definition int_geq :: "pyval \<Rightarrow> pyval \<Rightarrow> bool" where
  "int_geq x y = (case x of PInt m \<Rightarrow> (case y of PInt n \<Rightarrow> n \<le> m | PStr t \<Rightarrow> False)
                           | PStr s \<Rightarrow> False)"

definition ex_geq :: csp where
  "ex_geq =
     \<lparr>variables = [''A'', ''B''],
      domains = [(''A'', [PInt 1, PInt 2, PInt 3]), (''B'', [PInt 3])],
      constraints = [(''A'', [(''B'', [(PInt 3, PInt 3)])]), (''B'', [(''A'', [(PInt 3, PInt 3)])])],
      backtracking_number = 0, failed_backtracking_number = 0\<rparr>"

text \<open>Two integer variables that must differ.\<close>

definition ex_ints :: csp where
  "ex_ints =
     \<lparr>variables = [''A'', ''B''],
      domains = [(''A'', [PInt 1, PInt 2]), (''B'', [PInt 1, PInt 2])],
      constraints =
        [(''A'', [(''B'', [(PInt 1, PInt 2), (PInt 2, PInt 1)])]),
         (''B'', [(''A'', [(PInt 1, PInt 2), (PInt 2, PInt 1)])])],
      backtracking_number = 0, failed_backtracking_number = 0\<rparr>"

text \<open>Two cells that must differ, both prefilled with the same digit.\<close>

definition ex_pair :: csp where
  "ex_pair =
     \<lparr>variables = [''A'', ''B''],
      domains = [(''A'', [PStr ''1'']), (''B'', [PStr ''1''])],
      constraints = [(''A'', [(''B'', [])]), (''B'', [(''A'', [])])],
      backtracking_number = 0, failed_backtracking_number = 0\<rparr>"

text \<open>Two cells that must differ, one of them prefilled.\<close>

definition ex_prune :: csp where
  "ex_prune =
     \<lparr>variables = [''A'', ''B''],
      domains = [(''A'', [PStr ''1'', PStr ''2'']), (''B'', [PStr ''1''])],
      constraints =
        [(''A'', [(''B'', [(PStr ''2'', PStr ''1'')])]),
         (''B'', [(''A'', [(PStr ''1'', PStr ''2'')])])],
      backtracking_number = 0, failed_backtracking_number = 0\<rparr>"

text \<open>Three variables \<open>Z\<close>, \<open>Y\<close>, \<open>X\<close> (declared in this order) with three symmetric
  relations given as lists of legal pairs.\<close>

definition rel_xy :: "(pyval \<times> pyval) list" where
  "rel_xy = [(PStr ''1'', PStr ''c''), (PStr ''2'', PStr ''a''), (PStr ''2'', PStr ''b'')]"

definition rel_xz :: "(pyval \<times> pyval) list" where
  "rel_xz = [(PStr ''1'', PStr ''p''), (PStr ''1'', PStr ''r''), (PStr ''2'', PStr ''q'')]"

definition rel_yz :: "(pyval \<times> pyval) list" where
  "rel_yz = [(PStr ''a'', PStr ''p''), (PStr ''b'', PStr ''r''), (PStr ''c'', PStr ''q'')]"

definition ex_zyx :: csp where
  "ex_zyx =
     \<lparr>variables = [''Z'', ''Y'', ''X''],
      domains =
        [(''Z'', [PStr ''p'', PStr ''q'', PStr ''r'']),
         (''Y'', [PStr ''a'', PStr ''b'', PStr ''c'']),
         (''X'', [PStr ''1'', PStr ''2''])],
      constraints =
        [(''Z'',
          [(''X'', [(PStr ''p'', PStr ''1''), (PStr ''q'', PStr ''2''), (PStr ''r'', PStr ''1'')]),
           (''Y'', [(PStr ''p'', PStr ''a''), (PStr ''q'', PStr ''c''), (PStr ''r'', PStr ''b'')])]),
         (''Y'',
          [(''X'', [(PStr ''a'', PStr ''2''), (PStr ''b'', PStr ''2''), (PStr ''c'', PStr ''1'')]),
           (''Z'', [(PStr ''a'', PStr ''p''), (PStr ''b'', PStr ''r''), (PStr ''c'', PStr ''q'')])]),
         (''X'',
          [(''Y'', rel_xy), (''Z'', rel_xz)])],
      backtracking_number = 0, failed_backtracking_number = 0\<rparr>"

text \<open>A variable with one value and a variable declared with no value, no constraint.\<close>

definition ex_loop :: csp where
  "ex_loop = add_variable (add_variable CSP_init ''A'' [PStr ''1'']) ''B'' []"

definition st_loop :: assignment where
  "st_loop = [(''A'', DBare (PStr ''1'')), (''B'', DList [])]"

text \<open>Installing a list of relations, each given by its legal pairs, one direction at a
  time.\<close>

fun add_constraints :: "csp \<Rightarrow> (string \<times> string \<times> (pyval \<times> pyval) list) list \<Rightarrow> error + csp" where
  "add_constraints c [] = Inr c"
| "add_constraints c ((i, j, ps) # rest) =
     (case add_constraint_one_way c i j (\<lambda>x y. (x, y) \<in> set ps) of
        Inl e \<Rightarrow> Inl e
      | Inr c' \<Rightarrow> add_constraints c' rest)"

text \<open>An assignment in the middle of a search.\<close>

definition st_search :: assignment where
  "st_search =
     [(''A'', DList [PStr ''7'']),
      (''B'', DList [PStr ''1'', PStr ''2'', PStr ''3'']),
      (''C'', DBare (PStr ''4'')),
      (''D'', DList [PStr ''5'', PStr ''6'']),
      (''E'', DList [PStr ''8'', PStr ''9''])]"

section \<open>The example graphs are built by the public operations\<close>

lemma ex_alldiff_built:
  "add_all_different_constraint
     (add_variable (add_variable (add_variable CSP_init ''A'' [PStr ''1'']) ''B'' [PStr ''1''])
        ''C'' [PStr ''1'', PStr ''2''])
     [''A'', ''B'', ''C''] = Inr ex_alldiff"
  by code_simp

lemma ex_geq_built:
  "(case add_constraint_one_way
           (add_variable (add_variable CSP_init ''A'' [PInt 1, PInt 2, PInt 3]) ''B'' [PInt 3])
           ''A'' ''B'' int_geq of
      Inl e \<Rightarrow> Inl e
    | Inr c \<Rightarrow> add_constraint_one_way c ''B'' ''A'' (\<lambda>x y. int_geq y x)) = Inr ex_geq"
  by code_simp

lemma ex_ints_built:
  "add_all_different_constraint
     (add_variable (add_variable CSP_init ''A'' [PInt 1, PInt 2]) ''B'' [PInt 1, PInt 2])
     [''A'', ''B''] = Inr ex_ints"
  by code_simp

lemma ex_pair_built:
  "add_all_different_constraint
     (add_variable (add_variable CSP_init ''A'' [PStr ''1'']) ''B'' [PStr ''1''])
     [''A'', ''B''] = Inr ex_pair"
  by code_simp

lemma ex_prune_built:
  "add_all_different_constraint
     (add_variable (add_variable CSP_init ''A'' [PStr ''1'', PStr ''2'']) ''B'' [PStr ''1''])
     [''A'', ''B''] = Inr ex_prune"
  by code_simp

lemma ex_zyx_built:
  "add_constraints
     (add_variable
        (add_variable (add_variable CSP_init ''Z'' [PStr ''p'', PStr ''q'', PStr ''r''])
           ''Y'' [PStr ''a'', PStr ''b'', PStr ''c''])
        ''X'' [PStr ''1'', PStr ''2''])
     [(''X'', ''Y'', rel_xy), (''Y'', ''X'', map (\<lambda>(x, y). (y, x)) rel_xy),
      (''X'', ''Z'', rel_xz), (''Z'', ''X'', map (\<lambda>(x, y). (y, x)) rel_xz),
      (''Y'', ''Z'', rel_yz), (''Z'', ''Y'', map (\<lambda>(x, y). (y, x)) rel_yz)] = Inr ex_zyx"
  by code_simp


section \<open>Properties of the propagation\<close>

subsection \<open>The counted loop is the loop\<close>

lemma fst_tick [simp]: "fst (tick p) = Suc (fst p)"
  by (simp add: tick_def)

lemma snd_tick [simp]: "snd (tick p) = snd p"
  by (simp add: tick_def)

lemma inference_counted_result: "snd (inference_counted c a q) = inference c a q"
  by (induction c a q rule: inference_counted.induct)
     (auto split: sum.splits option.splits)

subsection \<open>A bound on the calls of revise\<close>

text \<open>
  Every call of \<^verbatim>\<open>revise\<close> takes one arc from the queue; a call that returns true puts
  at most \<open>degree c xi\<close> arcs back, and has removed at least one value from the domain of
  \<open>xi\<close>. So the queue length plus the domain sizes weighted by the degrees decreases with
  every call.
\<close>

lemma neighbours_degree:
  "get_all_neighboring_arcs c xi = Inr ns \<Longrightarrow> length ns = degree c xi"
  by (auto simp: get_all_neighboring_arcs_def degree_def split: option.splits)

lemma inference_counted_potential:
  "fst (inference_counted c a q) \<le> length q + wsum (degree c) a"
proof (induction c a q rule: inference_counted.induct)
  case (1 c a)
  show ?case by simp
next
  case (2 c a xi xj queue)
  show ?case
  proof (cases "revise c a xi xj")
    case (Inl e)
    then show ?thesis by simp
  next
    case (Inr res)
    obtain revised a' where res: "res = (revised, a')" by (cases res)
    show ?thesis
    proof (cases revised)
      case False
      with Inr res have rv: "revise c a xi xj = Inr (False, a')" by simp
      then have same: "a' = a" by (rule revise_unchanged)
      from "2.IH"(2)[OF Inr res[symmetric]] False
      have "fst (inference_counted c a' queue) \<le> length queue + wsum (degree c) a'" by simp
      with Inr res False same show ?thesis by simp
    next
      case True
      with Inr res have rv: "revise c a xi xj = Inr (True, a')" by simp
      from revise_decreases[OF rv, of "degree c"]
      have dec: "wsum (degree c) a' + degree c xi \<le> wsum (degree c) a" .
      show ?thesis
      proof (cases "map_of a' xi")
        case None
        with Inr res True show ?thesis by simp
      next
        case (Some d)
        show ?thesis
        proof (cases "truthy_dom d")
          case False
          with Inr res True Some show ?thesis by simp
        next
          case td: True
          show ?thesis
          proof (cases "get_all_neighboring_arcs c xi")
            case (Inl e)
            with Inr res True Some td show ?thesis by simp
          next
            case nb: (Inr ns)
            let ?q = "queue @ map (\<lambda>(xk, u). (xk, xi)) (filter (\<lambda>(xk, u). xk \<noteq> xj) ns)"
            have "fst (inference_counted c a' ?q) \<le> length ?q + wsum (degree c) a'"
              using "2.IH"(1)[OF Inr res[symmetric] True Some _ nb] td by simp
            moreover have "length ?q \<le> length queue + degree c xi"
              using neighbours_degree[OF nb] length_filter_le[of "\<lambda>(xk, u). xk \<noteq> xj" ns] by simp
            ultimately have "fst (inference_counted c a' ?q) \<le> length queue + wsum (degree c) a"
              using dec by linarith
            with Inr res True Some td nb show ?thesis by simp
          qed
        qed
      qed
    qed
  qed
qed


lemma wsum_bound:
  "\<forall>(k, d)\<in>set a. iter_len (Some d) \<le> dmax \<Longrightarrow>
   wsum w a \<le> dmax * sum_list (map w (map fst a))"
proof (induction a)
  case Nil
  show ?case by (simp add: wsum_def)
next
  case (Cons p a)
  obtain k d where p: "p = (k, d)" by (cases p)
  from Cons.prems p have d: "iter_len (Some d) \<le> dmax" by simp
  from Cons.prems have "\<forall>(k, d)\<in>set a. iter_len (Some d) \<le> dmax" by simp
  then have ih: "wsum w a \<le> dmax * sum_list (map w (map fst a))" by (rule Cons.IH)
  have step: "w k * iter_len (Some d) \<le> dmax * w k"
    using mult_le_mono2[OF d, of "w k"] by (simp add: mult.commute)
  have "wsum w (p # a) = w k * iter_len (Some d) + wsum w a"
    by (simp add: wsum_def p)
  moreover have "dmax * sum_list (map w (map fst (p # a)))
                 = dmax * w k + dmax * sum_list (map w (map fst a))"
    by (simp add: p distrib_left)
  ultimately show ?case using step ih by linarith
qed

lemma sum_list_split_key:
  "distinct ks \<Longrightarrow>
   sum_list (map (\<lambda>k. if k = i then n else g k) ks)
     \<le> (n::nat) + sum_list (map g (filter (\<lambda>k. k \<noteq> i) ks))"
proof (induction ks)
  case Nil
  show ?case by simp
next
  case (Cons x ks)
  then have ih: "sum_list (map (\<lambda>k. if k = i then n else g k) ks)
     \<le> n + sum_list (map g (filter (\<lambda>k. k \<noteq> i) ks))" by simp
  show ?case
  proof (cases "x = i")
    case True
    with Cons.prems have "i \<notin> set ks" by simp
    then have m: "map (\<lambda>k. if k = i then n else g k) ks = map g ks"
      and f: "filter (\<lambda>k. k \<noteq> i) ks = ks"
      by (auto simp: filter_id_conv)
    have "sum_list (map (\<lambda>k. if k = i then n else g k) (x # ks)) = n + sum_list (map g ks)"
      using True by (simp only: list.map sum_list.Cons m) simp
    moreover have "filter (\<lambda>k. k \<noteq> i) (x # ks) = ks"
      using True f by simp
    ultimately show ?thesis by simp
  next
    case False
    with ih show ?thesis by simp
  qed
qed

lemma sum_list_lookup_le:
  "distinct ks \<Longrightarrow>
   sum_list (map (\<lambda>k. case map_of al k of None \<Rightarrow> 0 | Some m \<Rightarrow> length m) ks)
     \<le> sum_list (map (\<lambda>(i, m). length m) al)"
proof (induction al arbitrary: ks)
  case Nil
  show ?case by simp
next
  case (Cons p al)
  obtain i m where p: "p = (i, m)" by (cases p)
  let ?g = "\<lambda>k. case map_of al k of None \<Rightarrow> 0 | Some m \<Rightarrow> length m"
  have eq: "(\<lambda>k. case map_of (p # al) k of None \<Rightarrow> 0 | Some m \<Rightarrow> length m)
            = (\<lambda>k. if k = i then length m else ?g k)"
    using p by (auto simp: fun_eq_iff)
  have "distinct (filter (\<lambda>k. k \<noteq> i) ks)" using Cons.prems by simp
  then have "sum_list (map ?g (filter (\<lambda>k. k \<noteq> i) ks)) \<le> sum_list (map (\<lambda>(i, m). length m) al)"
    by (rule Cons.IH)
  with sum_list_split_key[OF Cons.prems, of i "length m" ?g]
  show ?case unfolding eq using p by simp
qed

lemma length_get_all_arcs:
  "length (get_all_arcs c) = sum_list (map (\<lambda>(i, m). length m) (constraints c))"
  by (simp add: get_all_arcs_def length_concat comp_def case_prod_unfold)

lemma degree_sum_le_arcs:
  "distinct ks \<Longrightarrow> sum_list (map (degree c) ks) \<le> length (get_all_arcs c)"
  using sum_list_lookup_le[of ks "constraints c"]
  by (simp add: length_get_all_arcs degree_def[abs_def])

lemma inference_counted_bound:
  assumes "distinct (map fst a)" and "\<forall>(k, d)\<in>set a. iter_len (Some d) \<le> dmax"
  shows "fst (inference_counted c a q) \<le> length q + dmax * length (get_all_arcs c)"
proof -
  have "wsum (degree c) a \<le> dmax * sum_list (map (degree c) (map fst a))"
    using assms(2) by (rule wsum_bound)
  also have "\<dots> \<le> dmax * length (get_all_arcs c)"
    using degree_sum_le_arcs[OF assms(1)] by simp
  finally show ?thesis using inference_counted_potential[of c a q] by linarith
qed

subsection \<open>Domains only shrink\<close>

lemma pruned_refl: "pruned a a"
  by (simp add: pruned_def)

lemma pruned_trans:
  assumes "pruned a'' a'" and "pruned a' a"
  shows "pruned a'' a"
proof -
  have "map fst a'' = map fst a" using assms by (simp add: pruned_def)
  moreover have "set (values_of (map_of a'' k)) \<subseteq> set (values_of (map_of a k))" for k
    using assms unfolding pruned_def by (meson subset_trans)
  moreover have "length (values_of (map_of a'' k)) \<le> length (values_of (map_of a k))" for k
    using assms unfolding pruned_def by (meson order_trans)
  ultimately show ?thesis by (simp add: pruned_def)
qed

lemma pruned_remove:
  assumes "map_of a xi = Some d" and "remove_dom d x = Inr d'"
  shows "pruned (AList.update xi d' a) a"
proof -
  from assms(2) obtain xs where d: "d = DList xs" and d': "d' = DList (remove1 x xs)"
    by (cases d) (auto split: if_splits)
  have "set (remove1 x xs) \<subseteq> set xs" by (rule set_remove1_subset)
  moreover have "length (remove1 x xs) \<le> length xs" by (simp add: length_remove1)
  moreover have "xi \<in> fst ` set a"
    using map_of_SomeD[OF assms(1)] by (rule image_eqI[rotated]) simp
  then have "map fst (AList.update xi d' a) = map fst a" by (simp add: update_keys)
  ultimately show ?thesis
    using assms(1) d d' by (simp add: pruned_def update_conv')
qed

lemma revise_loop_pruned:
  "revise_loop c a xi xj idx r = Inr (r', a') \<Longrightarrow> pruned a' a"
proof (induction c a xi xj idx r rule: revise_loop.induct)
  case (1 c a xi xj idx revised)
  from "1.prems" obtain d xs where d: "map_of a xi = Some d" and xs: "iter_dom d = Inr xs"
    by (subst (asm) revise_loop.simps) (auto split: option.splits sum.splits)
  show ?case
  proof (cases "idx < length xs")
    case False
    with "1.prems" d xs show ?thesis
      by (subst (asm) revise_loop.simps) (simp add: pruned_refl)
  next
    case True
    note inb = this
    have cont: "contains_dom d (xs ! idx) = Inr True"
      using xs inb by (rule contains_dom_iter)
    show ?thesis
    proof (cases "has_support c a xi xj (xs ! idx)")
      case (Inl e)
      with "1.prems" d xs inb show ?thesis
        by (subst (asm) revise_loop.simps) simp
    next
      case (Inr b)
      show ?thesis
      proof (cases b)
        case True
        with Inr "1.prems" d xs inb
        have "revise_loop c a xi xj (Suc idx) revised = Inr (r', a')"
          by (subst (asm) revise_loop.simps) simp
        with "1.IH"(1)[OF d xs inb] Inr True show ?thesis by simp
      next
        case False
        with Inr "1.prems" d xs inb cont obtain d' where
          rm: "remove_dom d (xs ! idx) = Inr d'" and
          rec: "revise_loop c (AList.update xi d' a) xi xj (Suc idx) True = Inr (r', a')"
          by (subst (asm) revise_loop.simps) (auto split: sum.splits)
        have hs: "has_support c a xi xj (xs ! idx) = Inr False"
          using Inr False by simp
        from "1.IH"(2)[OF d xs inb hs refl cont refl rm rec]
        have "pruned a' (AList.update xi d' a)" .
        then show ?thesis using pruned_remove[OF d rm] by (rule pruned_trans)
      qed
    qed
  qed
qed

lemma inference_pruned: "inference c a q = Inr (r, a') \<Longrightarrow> pruned a' a"
proof (induction c a q rule: inference.induct)
  case (1 c a)
  then show ?case by (simp add: pruned_refl)
next
  case (2 c a xi xj queue)
  from "2.prems" obtain revised a1 where rv: "revise c a xi xj = Inr (revised, a1)"
    by (auto split: sum.splits)
  then have p1: "pruned a1 a" unfolding revise_def by (rule revise_loop_pruned)
  show ?case
  proof (cases revised)
    case False
    with "2.prems" rv have "inference c a1 queue = Inr (r, a')" by simp
    from "2.IH"(2)[OF rv refl False this] p1 show ?thesis by (rule pruned_trans)
  next
    case True
    show ?thesis
    proof (cases "map_of a1 xi")
      case None
      with "2.prems" rv True show ?thesis by simp
    next
      case (Some d)
      show ?thesis
      proof (cases "truthy_dom d")
        case False
        with "2.prems" rv True Some have "a' = a1" by simp
        with p1 show ?thesis by simp
      next
        case td: True
        with "2.prems" rv True Some obtain ns where
          nb: "get_all_neighboring_arcs c xi = Inr ns" and
          rec: "inference c a1 (queue @ map (\<lambda>(xk, u). (xk, xi))
                  (filter (\<lambda>(xk, u). xk \<noteq> xj) ns)) = Inr (r, a')"
          by (auto split: sum.splits)
        have "pruned a' a1"
          using "2.IH"(1)[OF rv refl True Some _ nb rec] td by simp
        then show ?thesis using p1 by (rule pruned_trans)
      qed
    qed
  qed
qed

lemma length_values_of: "length (values_of (Some d)) = iter_len (Some d)"
  by (cases d rule: iter_dom.cases) simp_all

subsection \<open>A consistent arc is left alone\<close>

lemma has_support_True:
  assumes "map_of a xj = Some dj" and "iter_dom dj = Inr ys"
    and "map_of (constraints c) xi = Some ci" and "map_of ci xj = Some ps"
    and "y \<in> set ys" and "(x, y) \<in> set ps"
  shows "has_support c a xi xj x = Inr True"
proof -
  let ?arcs = "get_all_possible_pairs [x] ys"
  have arcs: "?arcs = map (Pair x) ys" by (simp add: get_all_possible_pairs_def)
  with assms(5) have ne: "?arcs \<noteq> []" by auto
  have "(x, y) \<in> set ?arcs" using arcs assms(5) by simp
  then have "(1::nat) \<in> set (map (\<lambda>arc. if arc \<in> set ps then 1 else 0) ?arcs)"
    using assms(6) by force
  then have "sum_list (map (\<lambda>arc. if arc \<in> set ps then 1 else 0) ?arcs) \<noteq> (0::nat)"
    by (metis sum_list_eq_0_iff zero_neq_one)
  with assms(1-4) ne show ?thesis
    by (simp add: has_support_def Let_def)
qed

lemma revise_loop_supported:
  assumes "map_of a xi = Some di" and "iter_dom di = Inr xs"
    and "\<forall>x\<in>set xs. has_support c a xi xj x = Inr True"
  shows "revise_loop c a xi xj idx r = Inr (r, a)"
  using assms
proof (induction "length xs - idx" arbitrary: idx)
  case 0
  then show ?case by (subst revise_loop.simps) simp
next
  case (Suc n)
  then have inb: "idx < length xs" by simp
  with Suc.prems have hs: "has_support c a xi xj (xs ! idx) = Inr True" by simp
  have "n = length xs - Suc idx" using Suc(2) by simp
  from Suc(1)[OF this Suc.prems]
  have "revise_loop c a xi xj (Suc idx) r = Inr (r, a)" .
  with Suc.prems inb hs show ?case by (subst revise_loop.simps) simp
qed

lemma arc_okD:
  assumes ok: "arc_ok c a (xi, xj)"
  obtains di xs dj ys ci ps where
    "map_of a xi = Some di" "iter_dom di = Inr xs" "map_of a xj = Some dj" "iter_dom dj = Inr ys"
    "map_of (constraints c) xi = Some ci" "map_of ci xj = Some ps"
    "\<forall>x\<in>set xs. \<exists>y\<in>set ys. (x, y) \<in> set ps"
proof -
  from ok obtain di where 1: "map_of a xi = Some di"
    by (cases "map_of a xi") (simp_all add: arc_ok_def)
  from ok 1 obtain xs where 2: "iter_dom di = Inr xs"
    by (cases "iter_dom di") (simp_all add: arc_ok_def)
  from ok 1 2 obtain dj where 3: "map_of a xj = Some dj"
    by (cases "map_of a xj") (simp_all add: arc_ok_def)
  from ok 1 2 3 obtain ys where 4: "iter_dom dj = Inr ys"
    by (cases "iter_dom dj") (simp_all add: arc_ok_def)
  from ok 1 2 3 4 obtain ci where 5: "map_of (constraints c) xi = Some ci"
    by (cases "map_of (constraints c) xi") (simp_all add: arc_ok_def)
  from ok 1 2 3 4 5 obtain ps where 6: "map_of ci xj = Some ps"
    by (cases "map_of ci xj") (simp_all add: arc_ok_def)
  from ok 1 2 3 4 5 6 have "\<forall>x\<in>set xs. \<exists>y\<in>set ys. (x, y) \<in> set ps"
    by (simp add: arc_ok_def list_all_iff list_ex_iff)
  with 1 2 3 4 5 6 that show thesis by blast
qed

lemma revise_arc_ok:
  assumes "arc_ok c a (xi, xj)"
  shows "revise c a xi xj = Inr (False, a)"
proof -
  from assms obtain di xs dj ys ci ps where
    f: "map_of a xi = Some di" "iter_dom di = Inr xs" and
    g: "map_of a xj = Some dj" "iter_dom dj = Inr ys"
       "map_of (constraints c) xi = Some ci" "map_of ci xj = Some ps" and
    sup: "\<forall>x\<in>set xs. \<exists>y\<in>set ys. (x, y) \<in> set ps"
    by (rule arc_okD)
  have "\<forall>x\<in>set xs. has_support c a xi xj x = Inr True"
    using sup has_support_True[OF g] by blast
  with f show ?thesis unfolding revise_def by (rule revise_loop_supported)
qed

lemma inference_arc_ok: "list_all (arc_ok c a) q \<Longrightarrow> inference c a q = Inr (True, a)"
proof (induction q)
  case Nil
  show ?case by simp
next
  case (Cons arc q)
  obtain xi xj where arc: "arc = (xi, xj)" by (cases arc)
  with Cons.prems have "revise c a xi xj = Inr (False, a)" by (simp add: revise_arc_ok)
  with Cons arc show ?case by simp
qed

subsection \<open>The first minimum of the keys\<close>

lemma mrv_key_key_of: "dom_len a k = Some n \<Longrightarrow> mrv_key a k = Inr (key_of a k)"
  by (auto simp: dom_len_def mrv_key_def key_of_def split: option.splits sum.splits)

lemma min_loop_first_min:
  "\<forall>k\<in>set rest. dom_len a k \<noteq> None \<Longrightarrow>
   \<exists>pre v post. min_loop a best (key_of a best) rest = Inr v \<and> best # rest = pre @ v # post \<and>
      (\<forall>k\<in>set pre. key_of a v < key_of a k) \<and> (\<forall>k\<in>set post. key_of a v \<le> key_of a k)"
proof (induction rest arbitrary: best)
  case Nil
  have "[best] = [] @ best # []" by simp
  then show ?case by fastforce
next
  case (Cons x rest)
  from Cons.prems obtain n where n: "dom_len a x = Some n" by auto
  have key: "mrv_key a x = Inr (key_of a x)" using n by (rule mrv_key_key_of)
  from Cons.prems have rest: "\<forall>k\<in>set rest. dom_len a k \<noteq> None" by simp
  show ?case
  proof (cases "key_of a x < key_of a best")
    case True
    from Cons.IH[OF rest, of x] obtain pre v post where
      r: "min_loop a x (key_of a x) rest = Inr v" and dec: "x # rest = pre @ v # post" and
      before: "\<forall>k\<in>set pre. key_of a v < key_of a k" and
      after: "\<forall>k\<in>set post. key_of a v \<le> key_of a k"
      by blast
    have "key_of a v \<le> key_of a x"
    proof (cases pre)
      case Nil
      with dec show ?thesis by simp
    next
      case (Cons p ps)
      with dec have "x \<in> set pre" by simp
      with before show ?thesis by (simp add: order_less_imp_le)
    qed
    with True have "key_of a v < key_of a best" by simp
    with before have "\<forall>k\<in>set (best # pre). key_of a v < key_of a k" by simp
    moreover have "best # x # rest = (best # pre) @ v # post" using dec by simp
    moreover have "min_loop a best (key_of a best) (x # rest) = Inr v"
      using key True r by simp
    ultimately show ?thesis using after by blast
  next
    case False
    from Cons.IH[OF rest, of best] obtain pre v post where
      r: "min_loop a best (key_of a best) rest = Inr v" and dec: "best # rest = pre @ v # post" and
      before: "\<forall>k\<in>set pre. key_of a v < key_of a k" and
      after: "\<forall>k\<in>set post. key_of a v \<le> key_of a k"
      by blast
    have res: "min_loop a best (key_of a best) (x # rest) = Inr v"
      using key False r by simp
    show ?thesis
    proof (cases pre)
      case Nil
      with dec have v: "v = best" and post: "post = rest" by simp_all
      from False v have "key_of a v \<le> key_of a x" by simp
      with after have "\<forall>k\<in>set (x # post). key_of a v \<le> key_of a k" by simp
      moreover have "best # x # rest = [] @ v # (x # post)" using v post by simp
      ultimately show ?thesis using res by (metis empty_iff list.set(1))
    next
      case (Cons p ps)
      with dec have p: "p = best" and rest': "rest = ps @ v # post" by simp_all
      from before Cons p have "key_of a v < key_of a best" by simp
      with False have "key_of a v < key_of a x" by simp
      with before Cons p have "\<forall>k\<in>set (best # x # ps). key_of a v < key_of a k" by simp
      moreover have "best # x # rest = (best # x # ps) @ v # post" using rest' by simp
      ultimately show ?thesis using res after by blast
    qed
  qed
qed


section \<open>Evaluations shared by the claims\<close>

lemma backtrack_terminal:
  "sum_len (map snd a) = Inr (length a) \<Longrightarrow> backtrack (Suc fuel) c a = Inr (Some a, c)"
  by simp

lemma ex_alldiff_preprocessing:
  "inference ex_alldiff (initial_assignment ex_alldiff) (get_all_arcs ex_alldiff)
     = Inr (False, st_alldiff)"
  by code_simp

lemma st_alldiff_sum: "sum_len (map snd st_alldiff) = Inr (length st_alldiff)"
  by code_simp

lemma ex_alldiff_search:
  "backtracking_search (Suc fuel) ex_alldiff =
     Inr (Some st_alldiff,
          ex_alldiff\<lparr>backtracking_number := 1, failed_backtracking_number := 0\<rparr>)"
  by (simp add: backtracking_search_def ex_alldiff_preprocessing backtrack_terminal
        st_alldiff_sum)

lemma try_values_error:
  "inference c (assign_value a var v) (get_all_arcs c) = Inl e \<Longrightarrow>
   try_values fuel c a var (v # rest) = Inl e"
  by simp

lemma backtrack_branch:
  assumes "sum_len (map snd a) = Inr lens" and "lens \<noteq> length a"
    and "select_unassigned_variable a = Inr var" and "map_of a var = Some d"
    and "iter_dom d = Inr vals"
  shows "backtrack (Suc fuel) c a = try_values fuel c a var vals"
  using assms by simp

section \<open>The order of the keys, and the end of the search\<close>

text \<open>
  The keys of the assignment that a search works on are the keys of \<^verbatim>\<open>self.domains\<close>
  in their order, which is the order of declaration when every name is declared once.
\<close>

lemma initial_assignment_keys: "map fst (initial_assignment c) = map fst (domains c)"
  by (simp add: initial_assignment_def case_prod_unfold comp_def)

lemma assign_value_keys:
  "var \<in> set (map fst a) \<Longrightarrow> map fst (assign_value a var v) = map fst a"
  by (simp add: assign_value_def update_keys)

lemma inference_keys: "inference c a q = Inr (r, a') \<Longrightarrow> map fst a' = map fst a"
  by (drule inference_pruned) (simp add: pruned_def)

lemma add_variable_keys:
  "map fst (domains c) = variables c \<Longrightarrow> name \<notin> set (variables c) \<Longrightarrow>
   map fst (domains (add_variable c name domain)) = variables (add_variable c name domain)"
  by (simp add: add_variable_def update_keys)

text \<open>When every stored domain has one value, the test of line 131 succeeds.\<close>

lemma all_singleton_sum: "all_singleton a \<Longrightarrow> sum_len (map snd a) = Inr (length a)"
  by (induction a) (auto simp: all_singleton_def)

lemma backtrack_all_singleton:
  "all_singleton a \<Longrightarrow> backtrack (Suc fuel) c a = Inr (Some a, c)"
  by (simp add: all_singleton_sum)

text \<open>
  The recursion of \<^verbatim>\<open>backtrack\<close> need not end. A variable declared with an empty domain
  and without constraint keeps the sum of the lengths below the number of variables, and
  when no variable has two values the choice falls on the first one again and again: no
  recursion budget is enough.
\<close>

lemma st_loop_diverges:
  "get_all_arcs c = [] \<Longrightarrow> backtrack fuel c st_loop = Inl RecursionError"
proof (induction fuel arbitrary: c)
  case 0
  show ?case by simp
next
  case (Suc fuel)
  let ?c = "c\<lparr>backtracking_number := backtracking_number c + 1\<rparr>"
  have s: "sum_len (map snd st_loop) = Inr 1" by code_simp
  have l: "(1::nat) \<noteq> length st_loop" by code_simp
  have sel: "select_unassigned_variable st_loop = Inr ''A''" by code_simp
  have d: "map_of st_loop ''A'' = Some (DBare (PStr ''1''))" by code_simp
  have it: "iter_dom (DBare (PStr ''1'')) = Inr [PStr ''1'']" by simp
  have same: "assign_value st_loop ''A'' (PStr ''1'') = st_loop" by code_simp
  have "get_all_arcs ?c = []" using Suc.prems by (simp add: get_all_arcs_def)
  then have rec: "backtrack fuel ?c st_loop = Inl RecursionError" by (rule Suc.IH)
  have "backtrack (Suc fuel) c st_loop = try_values fuel c st_loop ''A'' [PStr ''1'']"
    using s l sel d it by (rule backtrack_branch)
  also have "\<dots> = Inl RecursionError"
    using Suc.prems same rec by simp
  finally show ?case .
qed

lemma ex_loop_search: "backtracking_search fuel ex_loop = Inl RecursionError"
proof (cases fuel)
  case 0
  have "get_all_arcs ex_loop = []" by code_simp
  with 0 show ?thesis by (simp add: backtracking_search_def)
next
  case (Suc n)
  let ?c = "ex_loop\<lparr>backtracking_number := 1, failed_backtracking_number := 0\<rparr>"
  let ?a = "initial_assignment ex_loop"
  have arcs: "get_all_arcs ex_loop = []" "get_all_arcs ?c = []" by code_simp+
  have s: "sum_len (map snd ?a) = Inr 1" by code_simp
  have l: "(1::nat) \<noteq> length ?a" by code_simp
  have sel: "select_unassigned_variable ?a = Inr ''A''" by code_simp
  have d: "map_of ?a ''A'' = Some (DList [PStr ''1''])" by code_simp
  have it: "iter_dom (DList [PStr ''1'']) = Inr [PStr ''1'']" by simp
  have first: "assign_value ?a ''A'' (PStr ''1'') = st_loop" by code_simp
  have "get_all_arcs (?c\<lparr>backtracking_number := backtracking_number ?c + 1\<rparr>) = []"
    using arcs(2) by (simp add: get_all_arcs_def)
  then have rec: "backtrack n (?c\<lparr>backtracking_number := backtracking_number ?c + 1\<rparr>) st_loop
                    = Inl RecursionError"
    by (rule st_loop_diverges)
  have "backtrack (Suc n) ?c ?a = try_values n ?c ?a ''A'' [PStr ''1'']"
    using s l sel d it by (rule backtrack_branch)
  also have "\<dots> = Inl RecursionError"
    using arcs first rec by simp
  finally show ?thesis using Suc arcs by (simp add: backtracking_search_def)
qed

section \<open>The claims\<close>

text \<open>
  C1. Claim: whenever \<^verbatim>\<open>inference\<close> returns true, every value left in the domain of a
  variable has a compatible value left in the domain of each neighbour.

  The code does not establish this. Line 193 removes from the list that line 189 is
  iterating over, so the value that follows a removed value is never examined. On the
  graph \<open>ex_geq\<close> (\<open>A\<close> over 1, 2, 3, \<open>B\<close> fixed to 3, constraint \<open>A \<ge> B\<close>), the run over
  all arcs returns true and leaves 2 in the domain of \<open>A\<close>, although 2 has no compatible
  value in the domain of \<open>B\<close>: the test of line 191 itself answers false for it, and the
  arc \<open>(A, B)\<close> is not consistent in the resulting assignment.
\<close>

theorem inference_leaves_unsupported_value:
  "inference ex_geq (initial_assignment ex_geq) (get_all_arcs ex_geq)
     = Inr (True, [(''A'', DList [PInt 2, PInt 3]), (''B'', DList [PInt 3])])
   \<and> has_support ex_geq [(''A'', DList [PInt 2, PInt 3]), (''B'', DList [PInt 3])]
         ''A'' ''B'' (PInt 2) = Inr False
   \<and> arc_ok ex_geq [(''A'', DList [PInt 2, PInt 3]), (''B'', DList [PInt 3])] (''A'', ''B'')
         = False"
proof -
  have run: "inference ex_geq (initial_assignment ex_geq) (get_all_arcs ex_geq)
     = Inr (True, [(''A'', DList [PInt 2, PInt 3]), (''B'', DList [PInt 3])])"
    by code_simp
  have test: "has_support ex_geq [(''A'', DList [PInt 2, PInt 3]), (''B'', DList [PInt 3])]
         ''A'' ''B'' (PInt 2) = Inr False"
    by code_simp
  have arc: "arc_ok ex_geq [(''A'', DList [PInt 2, PInt 3]), (''B'', DList [PInt 3])]
         (''A'', ''B'') = False"
    by code_simp
  from run test arc show ?thesis by simp
qed

text \<open>
  C2. Claim: when the first run of AC-3 over all arcs fails, \<^verbatim>\<open>backtracking_search\<close>
  reports failure at once, without calling \<^verbatim>\<open>backtrack\<close>.

  The code drops the value returned by that run (line 102) and calls \<^verbatim>\<open>backtrack\<close> in
  every case. On \<open>ex_alldiff\<close> (cells \<open>A\<close> and \<open>B\<close> both prefilled with 1, \<open>C\<close> over 1 and 2,
  all different) the first run returns false, having emptied the domain of \<open>A\<close>, and the
  search then returns the half-pruned assignment as its solution, for every recursion
  budget of at least one call.
\<close>

theorem backtracking_search_ignores_failed_preprocessing:
  "inference ex_alldiff (initial_assignment ex_alldiff) (get_all_arcs ex_alldiff)
     = Inr (False, st_alldiff)
   \<and> backtracking_search (Suc fuel) ex_alldiff =
       Inr (Some [(''A'', DList []), (''B'', DList [PStr ''1'']),
                  (''C'', DList [PStr ''1'', PStr ''2''])],
            ex_alldiff\<lparr>backtracking_number := 1, failed_backtracking_number := 0\<rparr>)"
proof -
  have "st_alldiff = [(''A'', DList []), (''B'', DList [PStr ''1'']),
                      (''C'', DList [PStr ''1'', PStr ''2''])]"
    by (simp add: st_alldiff_def)
  with ex_alldiff_preprocessing ex_alldiff_search [of fuel] show ?thesis by simp
qed

text \<open>
  C3. Claim: \<^verbatim>\<open>backtrack\<close> returns the assignment as a success exactly when every domain
  of the assignment has exactly one value.

  The test of line 131 compares the sum of the lengths with the number of variables. An
  empty domain and a domain of two values add up like two domains of one value: on the
  assignment \<open>st_alldiff\<close>, which \<^verbatim>\<open>backtracking_search\<close> passes to \<^verbatim>\<open>backtrack\<close> for the
  graph \<open>ex_alldiff\<close>, the terminal return is taken although the domain of \<open>A\<close> is empty
  and the domain of \<open>C\<close> has two values.
\<close>

theorem backtrack_success_without_singletons:
  "backtrack (Suc fuel) c st_alldiff = Inr (Some st_alldiff, c)
   \<and> all_singleton st_alldiff = False
   \<and> dom_len st_alldiff ''A'' = Some 0 \<and> dom_len st_alldiff ''C'' = Some 2"
proof -
  have "backtrack (Suc fuel) c st_alldiff = Inr (Some st_alldiff, c)"
    using st_alldiff_sum by (rule backtrack_terminal)
  moreover have "all_singleton st_alldiff = False" by code_simp
  moreover have "dom_len st_alldiff ''A'' = Some 0" by code_simp
  moreover have "dom_len st_alldiff ''C'' = Some 2" by code_simp
  ultimately show ?thesis by simp
qed

text \<open>
  C4. Claim: for each candidate value, \<^verbatim>\<open>backtrack\<close> copies the assignment and sets the
  domain of the chosen variable in the copy to the one-element collection of that value.

  The copy is made, and the caller's assignment is never changed. But line 137 stores the
  value itself, not a list holding it. A one-character string then still behaves as a
  sequence of one element; any other value does not. With integer values the first
  propagation after a choice iterates over an integer: on \<open>ex_ints\<close> (two variables over
  1 and 2 that must differ, which has two solutions) the search raises TypeError.
\<close>

theorem backtrack_stores_bare_value:
  "map_of (assign_value (initial_assignment ex_ints) ''A'' (PInt 1)) ''A'' = Some (DBare (PInt 1))
   \<and> inference ex_ints (assign_value (initial_assignment ex_ints) ''A'' (PInt 1))
        (get_all_arcs ex_ints) = Inl TypeError
   \<and> backtracking_search (Suc fuel) ex_ints = Inl TypeError"
proof -
  let ?c = "ex_ints\<lparr>backtracking_number := 1, failed_backtracking_number := 0\<rparr>"
  let ?a = "initial_assignment ex_ints"
  have stored: "map_of (assign_value ?a ''A'' (PInt 1)) ''A'' = Some (DBare (PInt 1))"
    by code_simp
  have inf1: "inference ex_ints (assign_value ?a ''A'' (PInt 1)) (get_all_arcs ex_ints)
                = Inl TypeError"
    by code_simp
  have pre: "inference ex_ints ?a (get_all_arcs ex_ints) = Inr (True, ?a)" by code_simp
  have s: "sum_len (map snd ?a) = Inr 4" by code_simp
  have l: "(4::nat) \<noteq> length ?a" by code_simp
  have sel: "select_unassigned_variable ?a = Inr ''A''" by code_simp
  have d: "map_of ?a ''A'' = Some (DList [PInt 1, PInt 2])" by code_simp
  have it: "iter_dom (DList [PInt 1, PInt 2]) = Inr [PInt 1, PInt 2]" by simp
  have inf2: "inference ?c (assign_value ?a ''A'' (PInt 1)) (get_all_arcs ?c) = Inl TypeError"
    by code_simp
  have "backtrack (Suc fuel) ?c ?a = try_values fuel ?c ?a ''A'' [PInt 1, PInt 2]"
    using s l sel d it by (rule backtrack_branch)
  also have "\<dots> = Inl TypeError" using inf2 by (rule try_values_error)
  finally have "backtracking_search (Suc fuel) ex_ints = Inl TypeError"
    by (simp add: backtracking_search_def pre)
  with stored inf1 show ?thesis by simp
qed


text \<open>
  C5. Claim: \<^verbatim>\<open>add_variable\<close> registers a variable with its initial domain, and fails
  with a DuplicateVariable error when the name already exists.

  The first half holds. The second does not: the program has no such error and no check
  (lines 35-37 are three unconditional statements). Declaring \<open>A\<close> twice returns a graph
  in which \<open>A\<close> is listed twice and has the second domain.
\<close>

theorem add_variable_duplicate_reregisters:
  "add_variable (add_variable CSP_init ''A'' [PStr ''1'']) ''A'' [PStr ''2''] =
     \<lparr>variables = [''A'', ''A''], domains = [(''A'', [PStr ''2''])],
      constraints = [(''A'', [])],
      backtracking_number = 0, failed_backtracking_number = 0\<rparr>"
  by code_simp

text \<open>
  C5, as the code has it: \<^verbatim>\<open>add_variable\<close> never fails. Afterwards the name has the given
  domain and an empty constraint dictionary, the name is appended to the list of
  variables, and the domains and constraint dictionaries of all other names are as
  before. For a name that was already declared this means: it is listed once more, its
  domain is replaced and its outgoing constraints are dropped.
\<close>

theorem add_variable_registers:
  "map_of (domains (add_variable c name domain)) name = Some domain
   \<and> map_of (constraints (add_variable c name domain)) name = Some []
   \<and> variables (add_variable c name domain) = variables c @ [name]
   \<and> (\<forall>k. k \<noteq> name \<longrightarrow>
          map_of (domains (add_variable c name domain)) k = map_of (domains c) k
          \<and> map_of (constraints (add_variable c name domain)) k = map_of (constraints c) k)
   \<and> (name \<in> set (variables c) \<longrightarrow> \<not> distinct (variables (add_variable c name domain)))"
  by (simp add: add_variable_def update_conv')

theorem add_variable_registers_witness:
  "map_of (domains (add_variable ex_pair ''A'' [PStr ''2''])) ''A'' = Some [PStr ''2'']
   \<and> map_of (constraints (add_variable ex_pair ''A'' [PStr ''2''])) ''A'' = Some []
   \<and> map_of (domains (add_variable ex_pair ''A'' [PStr ''2''])) ''B'' = Some [PStr ''1'']
   \<and> map_of (constraints (add_variable ex_pair ''A'' [PStr ''2''])) ''B'' = Some [(''A'', [])]
   \<and> \<not> distinct (variables (add_variable ex_pair ''A'' [PStr ''2'']))"
proof -
  have declared: "''A'' \<in> set (variables ex_pair)" by (simp add: ex_pair_def)
  have other: "''B'' \<noteq> ''A''" by simp
  have b: "map_of (domains ex_pair) ''B'' = Some [PStr ''1'']"
    "map_of (constraints ex_pair) ''B'' = Some [(''A'', [])]"
    by (simp_all add: ex_pair_def)
  from add_variable_registers [of ex_pair "''A''" "[PStr ''2'']"] declared other b
  show ?thesis by simp
qed

text \<open>
  C6. Claim: for every graph and every assignment, running \<^verbatim>\<open>inference\<close> over all arcs
  twice leaves the assignment as running it once does: a fixed point, once reached, is
  stable, the second run removes nothing and returns the same boolean.

  The code does not reach a fixed point in one run. On \<open>ex_geq\<close> (\<open>A\<close> over 1, 2, 3, \<open>B\<close>
  fixed to 3, constraint \<open>A \<ge> B\<close>) the first run over all arcs returns true and leaves
  2 and 3 in the domain of \<open>A\<close>; the second run over all arcs returns true as well and
  removes 2. The cause is the one of C1: \<^verbatim>\<open>revise\<close> removes from the list it iterates
  over, so the first run never examines the value 2.
\<close>

theorem inference_second_run_prunes_again:
  "inference ex_geq (initial_assignment ex_geq) (get_all_arcs ex_geq)
     = Inr (True, [(''A'', DList [PInt 2, PInt 3]), (''B'', DList [PInt 3])])
   \<and> inference ex_geq [(''A'', DList [PInt 2, PInt 3]), (''B'', DList [PInt 3])]
        (get_all_arcs ex_geq)
     = Inr (True, [(''A'', DList [PInt 3]), (''B'', DList [PInt 3])])"
proof -
  have first: "inference ex_geq (initial_assignment ex_geq) (get_all_arcs ex_geq)
     = Inr (True, [(''A'', DList [PInt 2, PInt 3]), (''B'', DList [PInt 3])])"
    by code_simp
  have second: "inference ex_geq [(''A'', DList [PInt 2, PInt 3]), (''B'', DList [PInt 3])]
     (get_all_arcs ex_geq) = Inr (True, [(''A'', DList [PInt 3]), (''B'', DList [PInt 3])])"
    by code_simp
  from first second show ?thesis by simp
qed

text \<open>
  Two further facts on repeated propagation. A run that returns false has stopped at
  the first domain it emptied (line 171) and left the rest of the queue unprocessed: on
  \<open>ex_pair\<close> the first run empties the domain of \<open>A\<close> and the second one that of \<open>B\<close>.
  And an assignment in which every arc of the graph is consistent is left as it is, with
  the result true (\<open>inference_arc_ok\<close>): on \<open>ex_prune\<close> the first run reaches such an
  assignment and the second run returns it unchanged.
\<close>

lemma inference_after_failed_run:
  "inference ex_pair (initial_assignment ex_pair) (get_all_arcs ex_pair)
     = Inr (False, [(''A'', DList []), (''B'', DList [PStr ''1''])])
   \<and> inference ex_pair [(''A'', DList []), (''B'', DList [PStr ''1''])] (get_all_arcs ex_pair)
     = Inr (False, [(''A'', DList []), (''B'', DList [])])"
proof -
  have first: "inference ex_pair (initial_assignment ex_pair) (get_all_arcs ex_pair)
     = Inr (False, [(''A'', DList []), (''B'', DList [PStr ''1''])])"
    by code_simp
  have second: "inference ex_pair [(''A'', DList []), (''B'', DList [PStr ''1''])]
     (get_all_arcs ex_pair) = Inr (False, [(''A'', DList []), (''B'', DList [])])"
    by code_simp
  from first second show ?thesis by simp
qed

lemma inference_consistent_unchanged:
  "arc_consistent c a \<Longrightarrow> inference c a (get_all_arcs c) = Inr (True, a)"
  unfolding arc_consistent_def by (rule inference_arc_ok)

lemma inference_consistent_example:
  "inference ex_prune (initial_assignment ex_prune) (get_all_arcs ex_prune)
     = Inr (True, [(''A'', DList [PStr ''2'']), (''B'', DList [PStr ''1''])])
   \<and> arc_consistent ex_prune [(''A'', DList [PStr ''2'']), (''B'', DList [PStr ''1''])]
   \<and> inference ex_prune [(''A'', DList [PStr ''2'']), (''B'', DList [PStr ''1''])]
        (get_all_arcs ex_prune)
     = Inr (True, [(''A'', DList [PStr ''2'']), (''B'', DList [PStr ''1''])])"
proof -
  have first: "inference ex_prune (initial_assignment ex_prune) (get_all_arcs ex_prune)
     = Inr (True, [(''A'', DList [PStr ''2'']), (''B'', DList [PStr ''1''])])"
    by code_simp
  have consistent:
    "arc_consistent ex_prune [(''A'', DList [PStr ''2'']), (''B'', DList [PStr ''1''])]"
    by code_simp
  from inference_consistent_unchanged [OF consistent] first consistent
  show ?thesis by simp
qed

text \<open>
  C7. \<^verbatim>\<open>select_unassigned_variable\<close>: in an assignment whose stored domains all have a
  length and in which some variable has at least two values, the call returns a variable
  \<open>v\<close> of the assignment with \<open>n \<ge> 2\<close> values such that every variable with at least two
  values that comes before \<open>v\<close> in the order of the dictionary has more than \<open>n\<close> values
  and every one that comes after \<open>v\<close> has at least \<open>n\<close>. So the domain of \<open>v\<close> is smallest
  among the undecided variables, ties go to the variable declared first, and a variable
  with fewer than two values is not chosen. The order of the keys of an assignment in a search
  is that of \<^verbatim>\<open>self.domains\<close>, the order of declaration, by \<open>add_variable_keys\<close>,
  \<open>initial_assignment_keys\<close>, \<open>assign_value_keys\<close> and \<open>inference_keys\<close>.
\<close>

theorem select_unassigned_variable_mrv:
  assumes sized: "\<forall>k\<in>set (map fst a). dom_len a k \<noteq> None"
    and undecided: "\<exists>k\<in>set (map fst a). \<exists>m. dom_len a k = Some m \<and> 2 \<le> m"
  shows "\<exists>pre v post n. select_unassigned_variable a = Inr v \<and> map fst a = pre @ v # post \<and>
           dom_len a v = Some n \<and> 2 \<le> n \<and>
           (\<forall>k\<in>set pre. \<forall>m. dom_len a k = Some m \<and> 2 \<le> m \<longrightarrow> n < m) \<and>
           (\<forall>k\<in>set post. \<forall>m. dom_len a k = Some m \<and> 2 \<le> m \<longrightarrow> n \<le> m)"
proof -
  from undecided obtain k0 m0 where k0: "k0 \<in> set (map fst a)" "dom_len a k0 = Some m0" "2 \<le> m0"
    by blast
  then obtain var rest where keys: "map fst a = var # rest" by (cases "map fst a") auto
  from sized keys obtain nv where nv: "dom_len a var = Some nv" by auto
  from sized keys have rest: "\<forall>k\<in>set rest. dom_len a k \<noteq> None" by simp
  from min_loop_first_min[OF rest, of var] obtain pre v post where
    r: "min_loop a var (key_of a var) rest = Inr v" and dec: "var # rest = pre @ v # post" and
    before: "\<forall>k\<in>set pre. key_of a v < key_of a k" and
    after: "\<forall>k\<in>set post. key_of a v \<le> key_of a k"
    by blast
  have sel: "select_unassigned_variable a = Inr v"
    using keys mrv_key_key_of[OF nv] r by (simp add: select_unassigned_variable_def)
  have k0key: "key_of a k0 = enat m0" using k0 by (simp add: key_of_def)
  have "k0 \<in> set pre \<or> k0 = v \<or> k0 \<in> set post" using k0(1) keys dec by auto
  with before after have "key_of a v \<le> key_of a k0" by (auto simp: order_less_imp_le)
  with k0key have fin: "key_of a v \<noteq> \<infinity>" by (cases "key_of a v") auto
  have "v \<in> set (map fst a)" using keys dec by simp
  with sized obtain n where n: "dom_len a v = Some n" by auto
  with fin have n2: "2 \<le> n" and vkey: "key_of a v = enat n"
    by (auto simp: key_of_def split: if_splits)
  have ktrans: "\<And>k m. dom_len a k = Some m \<Longrightarrow> 2 \<le> m \<Longrightarrow> key_of a k = enat m"
    by (simp add: key_of_def)
  have b: "\<forall>k\<in>set pre. \<forall>m. dom_len a k = Some m \<and> 2 \<le> m \<longrightarrow> n < m"
    using before vkey ktrans by fastforce
  have c: "\<forall>k\<in>set post. \<forall>m. dom_len a k = Some m \<and> 2 \<le> m \<longrightarrow> n \<le> m"
    using after vkey ktrans by fastforce
  from sel keys dec n n2 b c show ?thesis by (metis (no_types, lifting))
qed

theorem select_unassigned_variable_mrv_witness:
  "select_unassigned_variable st_search = Inr ''D''
   \<and> (\<exists>pre v post n. select_unassigned_variable st_search = Inr v \<and>
          map fst st_search = pre @ v # post \<and> dom_len st_search v = Some n \<and> 2 \<le> n \<and>
          (\<forall>k\<in>set pre. \<forall>m. dom_len st_search k = Some m \<and> 2 \<le> m \<longrightarrow> n < m) \<and>
          (\<forall>k\<in>set post. \<forall>m. dom_len st_search k = Some m \<and> 2 \<le> m \<longrightarrow> n \<le> m))"
proof -
  have sized: "\<forall>k\<in>set (map fst st_search). dom_len st_search k \<noteq> None"
    by (simp add: st_search_def dom_len_def)
  have "dom_len st_search ''B'' = Some 3" by (simp add: st_search_def dom_len_def)
  then have undecided:
    "\<exists>k\<in>set (map fst st_search). \<exists>m. dom_len st_search k = Some m \<and> 2 \<le> m"
    by (auto simp: st_search_def)
  have chosen: "select_unassigned_variable st_search = Inr ''D''" by code_simp
  from select_unassigned_variable_mrv [OF sized undecided] chosen
  show ?thesis by simp
qed

text \<open>
  C8. Monotonicity and termination of the propagation. \<open>inference\<close> is a total function:
  its definition was accepted with a proof that the total size of the domains together
  with the length of the queue decreases in every round, for every graph, assignment and
  queue. For an assignment with distinct keys whose domains have at most \<open>dmax\<close> values:
  the counted loop computes the result of \<^verbatim>\<open>inference\<close>; it calls \<^verbatim>\<open>revise\<close> at most
  \<open>length q + dmax * e\<close> times, where \<open>e\<close> is the number of arcs of the graph; and when the
  run returns, the keys are as before and no domain has gained a value or grown, also
  after any further run.
\<close>

theorem inference_monotone_bounded:
  assumes keys: "distinct (map fst a)"
    and sizes: "\<forall>(k, d)\<in>set a. length (values_of (Some d)) \<le> dmax"
  shows "snd (inference_counted c a q) = inference c a q
         \<and> fst (inference_counted c a q) \<le> length q + dmax * length (get_all_arcs c)
         \<and> (\<forall>r a'. inference c a q = Inr (r, a') \<longrightarrow>
               pruned a' a
               \<and> (\<forall>q' r' a''. inference c a' q' = Inr (r', a'') \<longrightarrow> pruned a'' a))"
proof -
  from sizes have "\<forall>(k, d)\<in>set a. iter_len (Some d) \<le> dmax"
    unfolding length_values_of .
  with keys have "fst (inference_counted c a q) \<le> length q + dmax * length (get_all_arcs c)"
    by (rule inference_counted_bound)
  moreover have "\<forall>r a'. inference c a q = Inr (r, a') \<longrightarrow>
               pruned a' a
               \<and> (\<forall>q' r' a''. inference c a' q' = Inr (r', a'') \<longrightarrow> pruned a'' a)"
    by (meson inference_pruned pruned_trans)
  ultimately show ?thesis by (simp add: inference_counted_result)
qed

theorem inference_monotone_bounded_witness:
  "fst (inference_counted ex_prune (initial_assignment ex_prune) (get_all_arcs ex_prune))
     \<le> length (get_all_arcs ex_prune) + 2 * length (get_all_arcs ex_prune)
   \<and> inference ex_prune (initial_assignment ex_prune) (get_all_arcs ex_prune)
     = Inr (True, [(''A'', DList [PStr ''2'']), (''B'', DList [PStr ''1''])])
   \<and> pruned [(''A'', DList [PStr ''2'']), (''B'', DList [PStr ''1''])]
        (initial_assignment ex_prune)"
proof -
  have keys: "distinct (map fst (initial_assignment ex_prune))" by code_simp
  have sizes: "\<forall>(k, d)\<in>set (initial_assignment ex_prune). length (values_of (Some d)) \<le> 2"
    by (simp add: initial_assignment_def ex_prune_def)
  have run: "inference ex_prune (initial_assignment ex_prune) (get_all_arcs ex_prune)
     = Inr (True, [(''A'', DList [PStr ''2'']), (''B'', DList [PStr ''1''])])"
    by code_simp
  note t = inference_monotone_bounded [OF keys sizes, of ex_prune "get_all_arcs ex_prune"]
  from t have bound:
    "fst (inference_counted ex_prune (initial_assignment ex_prune) (get_all_arcs ex_prune))
       \<le> length (get_all_arcs ex_prune) + 2 * length (get_all_arcs ex_prune)"
    by blast
  from t run have "pruned [(''A'', DList [PStr ''2'']), (''B'', DList [PStr ''1''])]
        (initial_assignment ex_prune)"
    by blast
  with bound run show ?thesis by blast
qed

text \<open>
  C9. Claim: for a graph without solution, \<^verbatim>\<open>backtracking_search\<close> returns None and the
  counter of failed backtracks is at least 1 afterwards.

  On \<open>ex_alldiff\<close>, which has no solution (\<open>A\<close> and \<open>B\<close> must differ and can only be 1),
  the search returns an assignment and the counter is 0. The cause is the one of C2: the
  failure of the first propagation is not looked at.
\<close>

theorem unsatisfiable_graph_reported_solved:
  "(\<forall>s. is_solution ex_alldiff s = False)
   \<and> backtracking_search (Suc fuel) ex_alldiff =
       Inr (Some st_alldiff,
            ex_alldiff\<lparr>backtracking_number := 1, failed_backtracking_number := 0\<rparr>)
   \<and> failed_backtracking_number
        (ex_alldiff\<lparr>backtracking_number := 1, failed_backtracking_number := 0\<rparr>) = 0"
proof -
  have "\<forall>s. is_solution ex_alldiff s = False"
    by (auto simp: is_solution_def ex_alldiff_def split: option.splits)
  with ex_alldiff_search [of fuel] show ?thesis by simp
qed

text \<open>
  C10. Claim: whenever \<^verbatim>\<open>revise\<close> is called during a search, the domain of \<open>xi\<close> is a list;
  in particular the removal of line 193 is never reached with the bare value that line
  137 stored.

  It is reached. On \<open>ex_zyx\<close> the first propagation changes nothing, \<open>X\<close> is chosen and
  set to the string 1, and the propagation that follows arrives at the arc \<open>(X, Y)\<close> with
  the domain of \<open>Y\<close> reduced to the value b, which is not compatible with 1. \<^verbatim>\<open>revise\<close>
  then calls \<^verbatim>\<open>remove\<close> on the string and the search ends with AttributeError. (The
  value b is still in the domain of \<open>Y\<close> because of the skipped element of C1.)
\<close>

theorem revise_removes_from_bare_value:
  "map_of (assign_value (initial_assignment ex_zyx) ''X'' (PStr ''1'')) ''X''
     = Some (DBare (PStr ''1''))
   \<and> revise ex_zyx
        [(''Z'', DList [PStr ''p'', PStr ''r'']), (''Y'', DList [PStr ''b'']),
         (''X'', DBare (PStr ''1''))] ''X'' ''Y'' = Inl AttributeError
   \<and> inference ex_zyx (assign_value (initial_assignment ex_zyx) ''X'' (PStr ''1''))
        (get_all_arcs ex_zyx) = Inl AttributeError
   \<and> backtracking_search (Suc fuel) ex_zyx = Inl AttributeError"
proof -
  let ?c = "ex_zyx\<lparr>backtracking_number := 1, failed_backtracking_number := 0\<rparr>"
  let ?a = "initial_assignment ex_zyx"
  have stored: "map_of (assign_value ?a ''X'' (PStr ''1'')) ''X'' = Some (DBare (PStr ''1''))"
    by code_simp
  have rev: "revise ex_zyx
        [(''Z'', DList [PStr ''p'', PStr ''r'']), (''Y'', DList [PStr ''b'']),
         (''X'', DBare (PStr ''1''))] ''X'' ''Y'' = Inl AttributeError"
    by code_simp
  have inf1: "inference ex_zyx (assign_value ?a ''X'' (PStr ''1'')) (get_all_arcs ex_zyx)
                = Inl AttributeError"
    by code_simp
  have pre: "inference ex_zyx ?a (get_all_arcs ex_zyx) = Inr (True, ?a)" by code_simp
  have s: "sum_len (map snd ?a) = Inr 8" by code_simp
  have l: "(8::nat) \<noteq> length ?a" by code_simp
  have sel: "select_unassigned_variable ?a = Inr ''X''" by code_simp
  have d: "map_of ?a ''X'' = Some (DList [PStr ''1'', PStr ''2''])" by code_simp
  have it: "iter_dom (DList [PStr ''1'', PStr ''2'']) = Inr [PStr ''1'', PStr ''2'']" by simp
  have inf2: "inference ?c (assign_value ?a ''X'' (PStr ''1'')) (get_all_arcs ?c)
                = Inl AttributeError"
    by code_simp
  have "backtrack (Suc fuel) ?c ?a = try_values fuel ?c ?a ''X'' [PStr ''1'', PStr ''2'']"
    using s l sel d it by (rule backtrack_branch)
  also have "\<dots> = Inl AttributeError" using inf2 by (rule try_values_error)
  finally have "backtracking_search (Suc fuel) ex_zyx = Inl AttributeError"
    by (simp add: backtracking_search_def pre)
  with stored rev inf1 show ?thesis by simp
qed

end
